theory Spec2Isabelle
  imports Main "HOL-Library.Word"
begin

unbundle bit_operations_syntax

section \<open>The data model of bitset.c\<close>

text \<open>
  The library is C for an LP64 platform: \<open>size_t\<close> is an unsigned 64-bit integer whose
  arithmetic wraps around, \<open>uint8_t\<close> is a byte, \<open>int\<close> and \<open>unsigned int\<close> have
  32 bits. A \<open>struct BitSet\<close> holds a pointer to the byte buffer and the length in bits.
  The buffer a pointer refers to is a list of bytes; the null pointer is \<open>None\<close>. A
  \<open>BitSet *\<close> argument is a \<open>BitSet option\<close> for the same reason.
\<close>

type_synonym size_t = "64 word"
type_synonym uint8_t = "8 word"
type_synonym c_int = "32 word"
type_synonym c_uint = "32 word"

record BitSet =
  bits :: "uint8_t list option"
  bit_len :: size_t

text \<open>
  What stops a call before it returns. \<open>Validation_failed msg\<close> is a \<open>BITSET_ASSERT\<close>
  that fired: the message goes to \<open>stderr\<close> and \<open>BITSET_DEBUG_BREAK\<close> raises
  \<open>SIGTRAP\<close> (or \<open>SIGABRT\<close>), whose default action ends the process. The other three are
  the undefined behaviours of C that the functions can run into.
\<close>

datatype fault =
    Validation_failed string
  | Null_dereference
  | Out_of_bounds
  | Division_by_zero

definition and_then :: "fault + 'a \<Rightarrow> ('a \<Rightarrow> fault + 'b) \<Rightarrow> fault + 'b" where
  "and_then m f = (case m of Inl e \<Rightarrow> Inl e | Inr x \<Rightarrow> f x)"

text \<open>
  \<open>BITSET_ASSERT(cond, msg)\<close> followed by the rest of the function body. With
  \<open>BITSET_DEBUG_MODE\<close> 0 the macro expands to nothing.
\<close>

definition BITSET_ASSERT :: "bool \<Rightarrow> bool \<Rightarrow> string \<Rightarrow> fault + 'a \<Rightarrow> fault + 'a" where
  "BITSET_ASSERT debug_mode cond msg rest =
     (if debug_mode \<and> \<not> cond then Inl (Validation_failed msg) else rest)"

text \<open>Reading and writing \<open>p[i]\<close> for a byte pointer \<open>p\<close>.\<close>

definition load :: "uint8_t list option \<Rightarrow> size_t \<Rightarrow> fault + uint8_t" where
  "load p i =
     (case p of
        None \<Rightarrow> Inl Null_dereference
      | Some bytes \<Rightarrow> if unat i < length bytes then Inr (bytes ! unat i) else Inl Out_of_bounds)"

definition store :: "uint8_t list option \<Rightarrow> size_t \<Rightarrow> uint8_t \<Rightarrow> fault + uint8_t list option" where
  "store p i v =
     (case p of
        None \<Rightarrow> Inl Null_dereference
      | Some bytes \<Rightarrow>
          if unat i < length bytes then Inr (Some (bytes[unat i := v])) else Inl Out_of_bounds)"

text \<open>
  The allocator is the environment of the library: \<open>avail\<close> says whether the request is
  granted. \<open>calloc\<close> hands out zeroed bytes, \<open>malloc\<close> bytes of indeterminate value
  (\<open>junk\<close>).
\<close>

definition calloc :: "bool \<Rightarrow> size_t \<Rightarrow> uint8_t list option" where
  "calloc avail n = (if avail then Some (replicate (unat n) 0) else None)"

definition malloc :: "bool \<Rightarrow> (nat \<Rightarrow> uint8_t) \<Rightarrow> size_t \<Rightarrow> uint8_t list option" where
  "malloc avail junk n = (if avail then Some (map junk [0..<unat n]) else None)"

text \<open>\<open>for (size_t i = i0; i < n; i++) body\<close>, the body acting on a state.\<close>

function for_loop :: "size_t \<Rightarrow> size_t \<Rightarrow> (size_t \<Rightarrow> 's \<Rightarrow> fault + 's) \<Rightarrow> 's \<Rightarrow> fault + 's" where
  "for_loop i n body s =
     (if i < n then
        (case body i s of Inl e \<Rightarrow> Inl e | Inr s' \<Rightarrow> for_loop (i + 1) n body s')
      else Inr s)"
  by pat_completeness auto
termination
proof (relation "measure (\<lambda>(i, n, body, s). unat n - unat i)")
  show "wf (measure (\<lambda>(i, n, body, s). unat n - unat i))"
    by simp
next
  fix i n :: size_t and body :: "size_t \<Rightarrow> 's \<Rightarrow> fault + 's" and s x2 :: 's
  assume "i < n"
  then have "unat n - unat (i + 1) < unat n - unat i"
    by unat_arith
  then show "((i + 1, n, body, x2), (i, n, body, s)) \<in> measure (\<lambda>(i, n, body, s). unat n - unat i)"
    by simp
qed

declare for_loop.simps [simp del]

section \<open>Index mapping\<close>

text \<open>
  \<open>for (size_t i = num_dims; i-- > 0;)\<close>: the test reads \<open>i\<close>, then \<open>i\<close> is decremented,
  and the body runs with the decremented value.
\<close>

function linear_index_loop ::
  "size_t \<Rightarrow> size_t list \<Rightarrow> size_t list \<Rightarrow> size_t \<Rightarrow> size_t \<Rightarrow> fault + size_t" where
  "linear_index_loop i dims indices index multiplier =
     (if i > 0 then
        (let i' = i - 1 in
         if unat i' < length indices \<and> unat i' < length dims then
           linear_index_loop i' dims indices
             (index + indices ! unat i' * multiplier) (multiplier * dims ! unat i')
         else Inl Out_of_bounds)
      else Inr index)"
  by pat_completeness auto
termination
proof (relation "measure (\<lambda>(i, dims, indices, index, multiplier). unat i)")
  show "wf (measure (\<lambda>(i, dims, indices, index, multiplier). unat i))"
    by simp
next
  fix i :: size_t and dims indices :: "size_t list" and index multiplier x :: size_t
  assume "0 < i" and "x = i - 1"
  then have "unat x < unat i"
    by unat_arith
  then show "((x, dims, indices, index + indices ! unat x * multiplier, multiplier * dims ! unat x),
      (i, dims, indices, index, multiplier)) \<in> measure (\<lambda>(i, dims, indices, index, multiplier). unat i)"
    by simp
qed

declare linear_index_loop.simps [simp del]

definition linear_index :: "size_t \<Rightarrow> size_t list \<Rightarrow> size_t list \<Rightarrow> fault + size_t" where
  "linear_index num_dims dims indices = linear_index_loop num_dims dims indices 0 1"

function inverse_linear_index_loop ::
  "size_t \<Rightarrow> size_t \<Rightarrow> size_t list \<Rightarrow> size_t \<Rightarrow> size_t list \<Rightarrow> fault + size_t list" where
  "inverse_linear_index_loop i num_dims dims index indices =
     (if i < num_dims then
        (let dim_index = num_dims - 1 - i in
         if unat dim_index < length dims \<and> unat dim_index < length indices then
           if dims ! unat dim_index = 0 then Inl Division_by_zero
           else inverse_linear_index_loop (i + 1) num_dims dims
                  (index div dims ! unat dim_index)
                  (indices[unat dim_index := index mod dims ! unat dim_index])
         else Inl Out_of_bounds)
      else Inr indices)"
  by pat_completeness auto
termination
proof (relation "measure (\<lambda>(i, num_dims, dims, index, indices). unat num_dims - unat i)")
  show "wf (measure (\<lambda>(i, num_dims, dims, index, indices). unat num_dims - unat i))"
    by simp
next
  fix i num_dims index x :: size_t and dims indices :: "size_t list"
  assume "i < num_dims"
  then have "unat num_dims - unat (i + 1) < unat num_dims - unat i"
    by unat_arith
  then show "((i + 1, num_dims, dims, index div dims ! unat x, indices[unat x := index mod dims ! unat x]),
      (i, num_dims, dims, index, indices))
    \<in> measure (\<lambda>(i, num_dims, dims, index, indices). unat num_dims - unat i)"
    by simp
qed

declare inverse_linear_index_loop.simps [simp del]

text \<open>The function returns nothing; its result is the array \<open>indices\<close> after the call.\<close>

definition inverse_linear_index ::
  "size_t \<Rightarrow> size_t list \<Rightarrow> size_t \<Rightarrow> size_t list \<Rightarrow> fault + size_t list" where
  "inverse_linear_index num_dims dims index indices =
     inverse_linear_index_loop 0 num_dims dims index indices"

section \<open>BitSet operations\<close>

text \<open>
  Every operation takes the build (\<open>debug_mode\<close>, the value of \<open>BITSET_DEBUG_MODE\<close>) and
  returns either the fault that stopped it or its result; an operation that writes through
  its \<open>BitSet *\<close> returns the struct as it is after the call.
\<close>

definition BitSet_get_byte_len :: "bool \<Rightarrow> BitSet option \<Rightarrow> fault + size_t" where
  "BitSet_get_byte_len debug_mode bs =
     BITSET_ASSERT debug_mode (bs \<noteq> None) ''BitSet_get_byte_len: BitSet is NULL''
       (case bs of
          None \<Rightarrow> Inl Null_dereference
        | Some b \<Rightarrow> Inr ((bit_len b + 7) div 8))"

text \<open>
  \<open>BitSet_init\<close> writes both fields of \<open>*bs\<close>, whatever they held before. The
  allocation is checked by an assertion only.
\<close>

definition BitSet_init :: "bool \<Rightarrow> bool \<Rightarrow> BitSet option \<Rightarrow> size_t \<Rightarrow> fault + BitSet" where
  "BitSet_init debug_mode avail bs n =
     BITSET_ASSERT debug_mode (bs \<noteq> None) ''BitSet_init: BitSet is NULL''
       (case bs of
          None \<Rightarrow> Inl Null_dereference
        | Some b0 \<Rightarrow>
            (let b1 = b0\<lparr>bit_len := n\<rparr> in
             and_then (BitSet_get_byte_len debug_mode (Some b1)) (\<lambda>byte_len.
               (let b2 = b1\<lparr>bits := calloc avail byte_len\<rparr> in
                BITSET_ASSERT debug_mode (bits b2 \<noteq> None) ''BitSet_init: Memory allocation failed''
                  (Inr b2)))))"

definition BitSet_set_all :: "bool \<Rightarrow> BitSet option \<Rightarrow> fault + BitSet" where
  "BitSet_set_all debug_mode bs =
     BITSET_ASSERT debug_mode (bs \<noteq> None) ''BitSet_set_all: BitSet is NULL''
       (case bs of
          None \<Rightarrow> Inl Null_dereference
        | Some b \<Rightarrow>
            and_then (BitSet_get_byte_len debug_mode bs) (\<lambda>byte_len.
            and_then (for_loop 0 byte_len (\<lambda>i p. store p i 0xFF) (bits b)) (\<lambda>p.
              Inr (b\<lparr>bits := p\<rparr>))))"

definition BitSet_clear_all :: "bool \<Rightarrow> BitSet option \<Rightarrow> fault + BitSet" where
  "BitSet_clear_all debug_mode bs =
     BITSET_ASSERT debug_mode (bs \<noteq> None) ''BitSet_clear_all: BitSet is NULL''
       (case bs of
          None \<Rightarrow> Inl Null_dereference
        | Some b \<Rightarrow>
            and_then (BitSet_get_byte_len debug_mode bs) (\<lambda>byte_len.
            and_then (for_loop 0 byte_len (\<lambda>i p. store p i 0) (bits b)) (\<lambda>p.
              Inr (b\<lparr>bits := p\<rparr>))))"

text \<open>
  In \<open>bs->bits[index / 8] |= 1 << (index % 8)\<close> the byte is promoted to \<open>int\<close>, combined
  with the \<open>int\<close> mask and converted back to \<open>uint8_t\<close>.
\<close>

definition BitSet_set :: "bool \<Rightarrow> BitSet option \<Rightarrow> size_t \<Rightarrow> fault + BitSet" where
  "BitSet_set debug_mode bs index =
     BITSET_ASSERT debug_mode (bs \<noteq> None) ''BitSet_set: BitSet is NULL''
       (case bs of
          None \<Rightarrow> Inl Null_dereference
        | Some b \<Rightarrow>
            BITSET_ASSERT debug_mode (index < bit_len b) ''BitSet_set: Index out of bounds''
              (and_then (load (bits b) (index div 8)) (\<lambda>byte.
               and_then (store (bits b) (index div 8)
                   (ucast ((ucast byte :: c_int) OR push_bit (unat (index mod 8)) 1))) (\<lambda>p.
                 Inr (b\<lparr>bits := p\<rparr>)))))"

definition BitSet_clear :: "bool \<Rightarrow> BitSet option \<Rightarrow> size_t \<Rightarrow> fault + BitSet" where
  "BitSet_clear debug_mode bs index =
     BITSET_ASSERT debug_mode (bs \<noteq> None) ''BitSet_clear: BitSet is NULL''
       (case bs of
          None \<Rightarrow> Inl Null_dereference
        | Some b \<Rightarrow>
            BITSET_ASSERT debug_mode (index < bit_len b) ''BitSet_clear: Index out of bounds''
              (and_then (load (bits b) (index div 8)) (\<lambda>byte.
               and_then (store (bits b) (index div 8)
                   (ucast ((ucast byte :: c_int) AND NOT (push_bit (unat (index mod 8)) 1)))) (\<lambda>p.
                 Inr (b\<lparr>bits := p\<rparr>)))))"

definition BitSet_get :: "bool \<Rightarrow> BitSet option \<Rightarrow> size_t \<Rightarrow> fault + c_uint" where
  "BitSet_get debug_mode bs index =
     BITSET_ASSERT debug_mode (bs \<noteq> None) ''BitSet_get: BitSet is NULL''
       (case bs of
          None \<Rightarrow> Inl Null_dereference
        | Some b \<Rightarrow>
            BITSET_ASSERT debug_mode (index < bit_len b) ''BitSet_get: Index out of bounds''
              (and_then (load (bits b) (index div 8)) (\<lambda>byte.
                 Inr (drop_bit (unat (index mod 8)) (ucast byte :: c_int) AND 1))))"

definition BitSet_flip :: "bool \<Rightarrow> BitSet option \<Rightarrow> size_t \<Rightarrow> fault + BitSet" where
  "BitSet_flip debug_mode bs index =
     BITSET_ASSERT debug_mode (bs \<noteq> None) ''BitSet_flip: BitSet is NULL''
       (case bs of
          None \<Rightarrow> Inl Null_dereference
        | Some b \<Rightarrow>
            BITSET_ASSERT debug_mode (index < bit_len b) ''BitSet_flip: Index out of bounds''
              (and_then (load (bits b) (index div 8)) (\<lambda>byte.
               and_then (store (bits b) (index div 8)
                   (ucast ((ucast byte :: c_int) XOR push_bit (unat (index mod 8)) 1))) (\<lambda>p.
                 Inr (b\<lparr>bits := p\<rparr>)))))"

text \<open>
  \<open>BitSet_copy_construct\<close> takes the allocation unchecked in a release build: the copy
  loop then writes through whatever \<open>malloc\<close> returned. Each iteration reads
  \<open>src->bits[i]\<close> and stores it into \<open>dest->bits[i]\<close>.
\<close>

definition BitSet_copy_construct ::
  "bool \<Rightarrow> bool \<Rightarrow> (nat \<Rightarrow> uint8_t) \<Rightarrow> BitSet option \<Rightarrow> BitSet option \<Rightarrow> fault + BitSet" where
  "BitSet_copy_construct debug_mode avail junk dest src =
     BITSET_ASSERT debug_mode (dest \<noteq> None \<and> src \<noteq> None) ''BitSet_copy_construct: BitSet is NULL''
       (and_then (BitSet_get_byte_len debug_mode src) (\<lambda>byte_len.
          case (dest, src) of
            (Some d0, Some s) \<Rightarrow>
              (let d1 = d0\<lparr>bits := malloc avail junk byte_len\<rparr> in
               BITSET_ASSERT debug_mode (bits d1 \<noteq> None)
                 ''BitSet_copy_construct: Memory allocation failed''
                 (let d2 = d1\<lparr>bit_len := bit_len s\<rparr> in
                  and_then (for_loop 0 byte_len
                      (\<lambda>i p. and_then (load (bits s) i) (\<lambda>byte. store p i byte)) (bits d2)) (\<lambda>p.
                    Inr (d2\<lparr>bits := p\<rparr>))))
          | _ \<Rightarrow> Inl Null_dereference))"

text \<open>
  The three binary operations read \<open>dest->bits[i]\<close> and \<open>src->bits[i]\<close>, combine them as
  \<open>int\<close>s and store the low byte into \<open>dest->bits[i]\<close>. Byte \<open>i\<close> of the result depends on
  byte \<open>i\<close> of the operands only, so the model reads \<open>src\<close> from its value at the call.
\<close>

definition BitSet_or :: "bool \<Rightarrow> BitSet option \<Rightarrow> BitSet option \<Rightarrow> fault + BitSet" where
  "BitSet_or debug_mode dest src =
     BITSET_ASSERT debug_mode (dest \<noteq> None \<and> src \<noteq> None) ''BitSet_or: BitSet is NULL''
       (case (dest, src) of
          (Some d, Some s) \<Rightarrow>
            and_then (BitSet_get_byte_len debug_mode (if bit_len d < bit_len s then dest else src))
              (\<lambda>byte_len.
            and_then (for_loop 0 byte_len
                (\<lambda>i p. and_then (load p i) (\<lambda>x. and_then (load (bits s) i) (\<lambda>y.
                   store p i (ucast ((ucast x :: c_int) OR ucast y))))) (bits d)) (\<lambda>p.
              Inr (d\<lparr>bits := p\<rparr>)))
        | _ \<Rightarrow> Inl Null_dereference)"

definition BitSet_and :: "bool \<Rightarrow> BitSet option \<Rightarrow> BitSet option \<Rightarrow> fault + BitSet" where
  "BitSet_and debug_mode dest src =
     BITSET_ASSERT debug_mode (dest \<noteq> None \<and> src \<noteq> None) ''BitSet_and: BitSet is NULL''
       (case (dest, src) of
          (Some d, Some s) \<Rightarrow>
            and_then (BitSet_get_byte_len debug_mode (if bit_len d < bit_len s then dest else src))
              (\<lambda>byte_len.
            and_then (for_loop 0 byte_len
                (\<lambda>i p. and_then (load p i) (\<lambda>x. and_then (load (bits s) i) (\<lambda>y.
                   store p i (ucast ((ucast x :: c_int) AND ucast y))))) (bits d)) (\<lambda>p.
              Inr (d\<lparr>bits := p\<rparr>)))
        | _ \<Rightarrow> Inl Null_dereference)"

definition BitSet_xor :: "bool \<Rightarrow> BitSet option \<Rightarrow> BitSet option \<Rightarrow> fault + BitSet" where
  "BitSet_xor debug_mode dest src =
     BITSET_ASSERT debug_mode (dest \<noteq> None \<and> src \<noteq> None) ''BitSet_xor: BitSet is NULL''
       (case (dest, src) of
          (Some d, Some s) \<Rightarrow>
            and_then (BitSet_get_byte_len debug_mode (if bit_len d < bit_len s then dest else src))
              (\<lambda>byte_len.
            and_then (for_loop 0 byte_len
                (\<lambda>i p. and_then (load p i) (\<lambda>x. and_then (load (bits s) i) (\<lambda>y.
                   store p i (ucast ((ucast x :: c_int) XOR ucast y))))) (bits d)) (\<lambda>p.
              Inr (d\<lparr>bits := p\<rparr>)))
        | _ \<Rightarrow> Inl Null_dereference)"

definition BitSet_not :: "bool \<Rightarrow> BitSet option \<Rightarrow> fault + BitSet" where
  "BitSet_not debug_mode bs =
     BITSET_ASSERT debug_mode (bs \<noteq> None) ''BitSet_not: BitSet is NULL''
       (case bs of
          None \<Rightarrow> Inl Null_dereference
        | Some b \<Rightarrow>
            and_then (BitSet_get_byte_len debug_mode bs) (\<lambda>byte_len.
            and_then (for_loop 0 byte_len
                (\<lambda>i p. and_then (load p i) (\<lambda>x. store p i (ucast (NOT (ucast x :: c_int))))) (bits b))
              (\<lambda>p. Inr (b\<lparr>bits := p\<rparr>))))"

text \<open>The loop of \<open>BitSet_equals\<close> returns from inside its body.\<close>

function BitSet_equals_loop ::
  "size_t \<Rightarrow> size_t \<Rightarrow> uint8_t list option \<Rightarrow> uint8_t list option \<Rightarrow> fault + c_int" where
  "BitSet_equals_loop i byte_len p1 p2 =
     (if i < byte_len then
        and_then (load p1 i) (\<lambda>x. and_then (load p2 i) (\<lambda>y.
          if x \<noteq> y then Inr 0 else BitSet_equals_loop (i + 1) byte_len p1 p2))
      else Inr 1)"
  by pat_completeness auto
termination
proof (relation "measure (\<lambda>(i, byte_len, p1, p2). unat byte_len - unat i)")
  show "wf (measure (\<lambda>(i, byte_len, p1, p2). unat byte_len - unat i))"
    by simp
next
  fix i byte_len :: size_t and p1 p2 :: "uint8_t list option" and x y :: uint8_t
  assume "i < byte_len"
  then have "unat byte_len - unat (i + 1) < unat byte_len - unat i"
    by unat_arith
  then show "((i + 1, byte_len, p1, p2), (i, byte_len, p1, p2))
    \<in> measure (\<lambda>(i, byte_len, p1, p2). unat byte_len - unat i)"
    by simp
qed

declare BitSet_equals_loop.simps [simp del]

definition BitSet_equals :: "bool \<Rightarrow> BitSet option \<Rightarrow> BitSet option \<Rightarrow> fault + c_int" where
  "BitSet_equals debug_mode bs1 bs2 =
     BITSET_ASSERT debug_mode (bs1 \<noteq> None \<and> bs2 \<noteq> None) ''BitSet_equals: BitSet is NULL''
       (case (bs1, bs2) of
          (Some b1, Some b2) \<Rightarrow>
            if bit_len b1 \<noteq> bit_len b2 then Inr 0
            else and_then (BitSet_get_byte_len debug_mode bs1) (\<lambda>byte_len.
                   BitSet_equals_loop 0 byte_len (bits b1) (bits b2))
        | _ \<Rightarrow> Inl Null_dereference)"

text \<open>
  \<open>printf("%d", v)\<close>: the decimal digits of \<open>v\<close> read as an \<open>int\<close>, with a minus sign
  when negative.
\<close>

fun dec_digits :: "nat \<Rightarrow> string" where
  "dec_digits n =
     (if n < 10 then [char_of (48 + n)] else dec_digits (n div 10) @ [char_of (48 + n mod 10)])"

declare dec_digits.simps [simp del]

definition printf_d :: "c_uint \<Rightarrow> string" where
  "printf_d v =
     (if sint v < 0 then CHR ''-'' # dec_digits (nat (- sint v)) else dec_digits (nat (sint v)))"

text \<open>
  \<open>BitSet_print\<close> returns what it wrote to \<open>stdout\<close>. In \<open>(i + 1) % newline\<close> the
  \<open>int\<close> is converted to \<open>size_t\<close> (sign extension) and the remainder is unsigned; a zero
  divisor is undefined behaviour.
\<close>

definition BitSet_print :: "bool \<Rightarrow> BitSet option \<Rightarrow> c_int \<Rightarrow> fault + string" where
  "BitSet_print debug_mode bs newline =
     BITSET_ASSERT debug_mode (bs \<noteq> None) ''BitSet_print: BitSet is NULL''
       (case bs of
          None \<Rightarrow> Inl Null_dereference
        | Some b \<Rightarrow>
            and_then (for_loop 0 (bit_len b)
                (\<lambda>i out. and_then (BitSet_get debug_mode bs i) (\<lambda>v.
                   (let out1 = out @ printf_d v in
                    if (scast newline :: size_t) = 0 then Inl Division_by_zero
                    else if (i + 1) mod scast newline = 0 then Inr (out1 @ [CHR 0x0A])
                    else Inr out1))) [])
              (\<lambda>out. Inr (out @ [CHR 0x0A])))"

section \<open>Specification vocabulary\<close>

text \<open>
  The invariant of the data model: the buffer exists and holds \<open>ceil(bit_len / 8)\<close> bytes,
  a number that \<open>size_t\<close> arithmetic computes without wrapping.
\<close>

definition BitSet_wf :: "BitSet \<Rightarrow> bool" where
  "BitSet_wf b =
     (unat (bit_len b) + 7 < 2 ^ 64 \<and>
      (case bits b of
         None \<Rightarrow> False
       | Some bytes \<Rightarrow> length bytes = (unat (bit_len b) + 7) div 8))"

definition storage :: "BitSet \<Rightarrow> uint8_t list" where
  "storage b = (case bits b of None \<Rightarrow> [] | Some bytes \<Rightarrow> bytes)"

text \<open>Bit \<open>i\<close> of a buffer: bit \<open>i mod 8\<close> of byte \<open>i div 8\<close>, bit 0 the least significant.\<close>

definition bit_at :: "uint8_t list \<Rightarrow> nat \<Rightarrow> bool" where
  "bit_at bytes i = bit (bytes ! (i div 8)) (i mod 8)"

text \<open>The first \<open>n\<close> bytes of \<open>xs\<close> combined with those of \<open>ys\<close>, the rest of \<open>xs\<close> kept.\<close>

definition combine_prefix ::
  "(uint8_t \<Rightarrow> uint8_t \<Rightarrow> uint8_t) \<Rightarrow> nat \<Rightarrow> uint8_t list \<Rightarrow> uint8_t list \<Rightarrow> uint8_t list" where
  "combine_prefix f n xs ys = map (\<lambda>k. f (xs ! k) (ys ! k)) [0..<n] @ drop n xs"

text \<open>
  Row-major order as a mixed-radix numeral, least significant digit first: the value of the
  digits \<open>xs\<close> in the radices \<open>ds\<close>, and the digits of a number. The last dimension is
  the fastest, so the C arrays appear reversed.
\<close>

fun mixed_radix_value :: "nat list \<Rightarrow> nat list \<Rightarrow> nat" where
  "mixed_radix_value (d # ds) (x # xs) = x + d * mixed_radix_value ds xs"
| "mixed_radix_value _ _ = 0"

fun mixed_radix_digits :: "nat list \<Rightarrow> nat \<Rightarrow> nat list" where
  "mixed_radix_digits [] k = []"
| "mixed_radix_digits (d # ds) k = (k mod d) # mixed_radix_digits ds (k div d)"



text \<open>
  The layout the rendering is meant to have, in the words of its description: the
  characters in groups of \<open>g\<close>, a line break after every complete group.
\<close>

function group_lines :: "nat \<Rightarrow> string \<Rightarrow> string" where
  "group_lines g s =
     (if g = 0 \<or> length s < g then s
      else take g s @ [CHR 0x0A] @ group_lines g (drop g s))"
  by pat_completeness auto
termination
  by (relation "measure (\<lambda>(g, s). length s)") auto

declare group_lines.simps [simp del]

text \<open>The bits of a bit set as characters, index 0 first.\<close>

definition bit_chars :: "BitSet \<Rightarrow> string" where
  "bit_chars b =
     map (\<lambda>i. if bit_at (storage b) i then CHR ''1'' else CHR ''0'') [0..<unat (bit_len b)]"


section \<open>Basic facts\<close>

lemma and_then_Inr [simp]: "and_then (Inr x) f = f x"
  by (simp add: and_then_def)

lemma and_then_Inl [simp]: "and_then (Inl e) f = Inl e"
  by (simp add: and_then_def)

lemma BitSet_get_byte_len_Some [simp]:
  "BitSet_get_byte_len debug_mode (Some b) = Inr ((bit_len b + 7) div 8)"
  by (simp add: BitSet_get_byte_len_def BITSET_ASSERT_def)

lemma copy_loop_null_dest:
  "for_loop i n (\<lambda>i p. and_then (load (bits s) i) (\<lambda>byte. store p i byte)) None =
     (if i < n then (case load (bits s) i of Inl e \<Rightarrow> Inl e | Inr x \<Rightarrow> Inl Null_dereference)
      else Inr None)"
  by (subst for_loop.simps) (auto simp: store_def split: sum.splits)

subsection \<open>Loops\<close>

lemma for_loop_step:
  "i < n \<Longrightarrow> for_loop i n body s = and_then (body i s) (for_loop (i + 1) n body)"
  by (subst for_loop.simps) (simp add: and_then_def)

lemma for_loop_done: "\<not> i < n \<Longrightarrow> for_loop i n body s = Inr s"
  by (subst for_loop.simps) simp

text \<open>A loop to \<open>n + 1\<close> is the loop to \<open>n\<close> followed by the body at \<open>n\<close>.\<close>

lemma for_loop_last:
  "i \<le> n \<Longrightarrow> n + 1 \<noteq> 0 \<Longrightarrow>
   for_loop i (n + 1) body s = and_then (for_loop i n body s) (body n)"
proof (induction i n body s rule: for_loop.induct)
  case (1 i n body s)
  show ?case
  proof (cases "i < n")
    case True
    then have a: "i < n + 1" using "1.prems" by unat_arith
    have b: "i + 1 \<le> n" using True by unat_arith
    show ?thesis
    proof (cases "body i s")
      case (Inl e)
      then show ?thesis using True a by (simp add: for_loop_step)
    next
      case (Inr s')
      then show ?thesis using True a "1.IH"[OF True Inr b "1.prems"(2)] by (simp add: for_loop_step)
    qed
  next
    case False
    then have e: "i = n" using "1.prems" by simp
    have a: "n < n + 1" using "1.prems" by unat_arith
    show ?thesis unfolding e
      by (simp add: for_loop_step[OF a] for_loop_done and_then_def split: sum.splits)
  qed
qed

lemma for_loop_bytes:
  assumes body: "\<And>k bs. k < unat n \<Longrightarrow> length bs = length bytes \<Longrightarrow> bs ! k = bytes ! k \<Longrightarrow>
            body (of_nat k) (Some bs) = Inr (Some (bs[k := g k]))"
    and len: "unat n \<le> length bytes"
  shows "for_loop 0 n body (Some bytes) = Inr (Some (map g [0..<unat n] @ drop (unat n) bytes))"
proof -
  have "m \<le> unat n \<Longrightarrow>
        for_loop 0 (of_nat m) body (Some bytes) = Inr (Some (map g [0..<m] @ drop m bytes))" for m
  proof (induction m)
    case 0
    then show ?case by (simp add: for_loop_done)
  next
    case (Suc m)
    have lt: "m < unat n" using Suc.prems by simp
    have "unat (of_nat (Suc m) :: size_t) = Suc m"
      using Suc.prems by (rule le_unat_uoi)
    then have "(of_nat (Suc m) :: size_t) \<noteq> 0"
      by (metis Zero_not_Suc unat_0)
    then have nz: "(of_nat m :: size_t) + 1 \<noteq> 0"
      by (simp add: add.commute)
    let ?bs = "map g [0..<m] @ drop m bytes"
    have l: "length ?bs = length bytes" using lt len by simp
    have k: "?bs ! m = bytes ! m" using lt len by (simp add: nth_append)
    have "for_loop 0 (of_nat (Suc m)) body (Some bytes)
        = and_then (for_loop 0 (of_nat m) body (Some bytes)) (body (of_nat m))"
      using for_loop_last [of 0 "of_nat m" body "Some bytes"] nz by (simp add: add.commute)
    also have "\<dots> = body (of_nat m) (Some ?bs)"
      using Suc.IH lt by simp
    also have "\<dots> = Inr (Some (?bs[m := g m]))"
      using body [OF lt l k] .
    also have "?bs[m := g m] = map g [0..<Suc m] @ drop (Suc m) bytes"
    proof -
      have "m < length bytes" using lt len by simp
      then have "drop m bytes = bytes ! m # drop (Suc m) bytes"
        by (simp add: Cons_nth_drop_Suc)
      then show ?thesis by (simp add: list_update_append)
    qed
    finally show ?case .
  qed
  from this [of "unat n"] show ?thesis by simp
qed

subsection \<open>Well-formed bit sets and integer promotion\<close>

lemma wf_byte_len:
  "BitSet_wf b \<Longrightarrow> unat ((bit_len b + 7) div 8) = (unat (bit_len b) + 7) div 8"
  by (simp add: BitSet_wf_def unat_div unat_word_ariths)

lemma wf_bits:
  "BitSet_wf b \<Longrightarrow> bits b = Some (storage b) \<and> length (storage b) = (unat (bit_len b) + 7) div 8"
  by (auto simp: BitSet_wf_def storage_def split: option.splits)

lemma wf_index:
  assumes "BitSet_wf b" "index < bit_len b"
  shows "unat (index div 8) = unat index div 8" "unat (index mod 8) = unat index mod 8"
    "unat index div 8 < length (storage b)"
proof -
  show "unat (index div 8) = unat index div 8" by (simp add: unat_div)
  show "unat (index mod 8) = unat index mod 8" by (simp add: unat_mod)
  have "unat index < unat (bit_len b)" using assms(2) by (simp add: word_less_nat_alt)
  then show "unat index div 8 < length (storage b)"
    using wf_bits [OF assms(1)] by simp
qed

lemma promote_or: "(ucast ((ucast (x::uint8_t) :: c_int) OR ucast (y::uint8_t)) :: uint8_t) = x OR y"
  by (rule bit_word_eqI) (auto simp: bit_simps)
lemma promote_and: "(ucast ((ucast (x::uint8_t) :: c_int) AND ucast (y::uint8_t)) :: uint8_t) = x AND y"
  by (rule bit_word_eqI) (auto simp: bit_simps)
lemma promote_xor: "(ucast ((ucast (x::uint8_t) :: c_int) XOR ucast (y::uint8_t)) :: uint8_t) = x XOR y"
  by (rule bit_word_eqI) (auto simp: bit_simps)
lemma promote_not: "(ucast (NOT (ucast (x::uint8_t) :: c_int)) :: uint8_t) = NOT x"
  by (rule bit_word_eqI) (auto simp: bit_simps)
lemma promote_set: "k < 8 \<Longrightarrow> (ucast ((ucast (x::uint8_t) :: c_int) OR 2 ^ k) :: uint8_t) = set_bit k x"
  unfolding push_bit_of_1 [symmetric] by (rule bit_word_eqI) (auto simp: bit_simps)
lemma promote_clear: "k < 8 \<Longrightarrow> (ucast ((ucast (x::uint8_t) :: c_int) AND NOT (2 ^ k)) :: uint8_t) = unset_bit k x"
  unfolding push_bit_of_1 [symmetric] by (rule bit_word_eqI) (auto simp: bit_simps)
lemma promote_flip: "k < 8 \<Longrightarrow> (ucast ((ucast (x::uint8_t) :: c_int) XOR 2 ^ k) :: uint8_t) = flip_bit k x"
  unfolding push_bit_of_1 [symmetric] by (rule bit_word_eqI) (auto simp: bit_simps)
lemma promote_test: "k < 8 \<Longrightarrow> (drop_bit k (ucast (x::uint8_t) :: c_int)) AND 1 = of_bool (bit x k)"
  by (rule bit_word_eqI) (auto simp: bit_simps)

lemma get_wf:
  assumes "BitSet_wf b" "index < bit_len b"
  shows "BitSet_get debug_mode (Some b) index = Inr (of_bool (bit_at (storage b) (unat index)))"
  using assms wf_index [OF assms] wf_bits [OF assms(1)]
  by (simp add: BitSet_get_def BITSET_ASSERT_def load_def bit_at_def promote_test)

lemma set_wf:
  assumes "BitSet_wf b" "index < bit_len b"
  shows "BitSet_set debug_mode (Some b) index =
    Inr (b\<lparr>bits := Some ((storage b)[unat index div 8 := set_bit (unat index mod 8) (storage b ! (unat index div 8))])\<rparr>)"
  using assms wf_index [OF assms] wf_bits [OF assms(1)]
  by (simp add: BitSet_set_def BITSET_ASSERT_def load_def store_def promote_set)

lemma clear_wf:
  assumes "BitSet_wf b" "index < bit_len b"
  shows "BitSet_clear debug_mode (Some b) index =
    Inr (b\<lparr>bits := Some ((storage b)[unat index div 8 := unset_bit (unat index mod 8) (storage b ! (unat index div 8))])\<rparr>)"
  using assms wf_index [OF assms] wf_bits [OF assms(1)]
  by (simp add: BitSet_clear_def BITSET_ASSERT_def load_def store_def promote_clear)

lemma flip_wf:
  assumes "BitSet_wf b" "index < bit_len b"
  shows "BitSet_flip debug_mode (Some b) index =
    Inr (b\<lparr>bits := Some ((storage b)[unat index div 8 := flip_bit (unat index mod 8) (storage b ! (unat index div 8))])\<rparr>)"
  using assms wf_index [OF assms] wf_bits [OF assms(1)]
  by (simp add: BitSet_flip_def BITSET_ASSERT_def load_def store_def promote_flip)

lemma wf_update:
  "BitSet_wf b \<Longrightarrow> length bytes = length (storage b) \<Longrightarrow> BitSet_wf (b\<lparr>bits := Some bytes\<rparr>)"
  by (auto simp: BitSet_wf_def storage_def split: option.splits)

lemma storage_update [simp]: "storage (b\<lparr>bits := Some bytes\<rparr>) = bytes"
  by (simp add: storage_def)


section \<open>Bounds checking in a debug build\<close>

text \<open>
  Claim C9. In a build with assertions, \<open>BitSet_set\<close>, \<open>BitSet_clear\<close>, \<open>BitSet_flip\<close>
  and \<open>BitSet_get\<close> on a non-null handle stop with the index-out-of-bounds validation
  failure exactly when \<open>index >= bit_len\<close>; the index \<open>bit_len\<close> itself is rejected by
  all four.
\<close>

theorem debug_index_out_of_bounds:
  "(BitSet_set True (Some b) index = Inl (Validation_failed ''BitSet_set: Index out of bounds'')
      \<longleftrightarrow> bit_len b \<le> index) \<and>
   (BitSet_clear True (Some b) index = Inl (Validation_failed ''BitSet_clear: Index out of bounds'')
      \<longleftrightarrow> bit_len b \<le> index) \<and>
   (BitSet_flip True (Some b) index = Inl (Validation_failed ''BitSet_flip: Index out of bounds'')
      \<longleftrightarrow> bit_len b \<le> index) \<and>
   (BitSet_get True (Some b) index = Inl (Validation_failed ''BitSet_get: Index out of bounds'')
      \<longleftrightarrow> bit_len b \<le> index) \<and>
   BitSet_set True (Some b) (bit_len b) = Inl (Validation_failed ''BitSet_set: Index out of bounds'') \<and>
   BitSet_clear True (Some b) (bit_len b) = Inl (Validation_failed ''BitSet_clear: Index out of bounds'') \<and>
   BitSet_flip True (Some b) (bit_len b) = Inl (Validation_failed ''BitSet_flip: Index out of bounds'') \<and>
   BitSet_get True (Some b) (bit_len b) = Inl (Validation_failed ''BitSet_get: Index out of bounds'')"
proof -
  have s: "BitSet_set True (Some b) i = Inl (Validation_failed ''BitSet_set: Index out of bounds'')
      \<longleftrightarrow> bit_len b \<le> i" for i
    by (auto simp: BitSet_set_def BITSET_ASSERT_def load_def store_def and_then_def
        split: option.splits sum.splits)
  have c: "BitSet_clear True (Some b) i = Inl (Validation_failed ''BitSet_clear: Index out of bounds'')
      \<longleftrightarrow> bit_len b \<le> i" for i
    by (auto simp: BitSet_clear_def BITSET_ASSERT_def load_def store_def and_then_def
        split: option.splits sum.splits)
  have f: "BitSet_flip True (Some b) i = Inl (Validation_failed ''BitSet_flip: Index out of bounds'')
      \<longleftrightarrow> bit_len b \<le> i" for i
    by (auto simp: BitSet_flip_def BITSET_ASSERT_def load_def store_def and_then_def
        split: option.splits sum.splits)
  have g: "BitSet_get True (Some b) i = Inl (Validation_failed ''BitSet_get: Index out of bounds'')
      \<longleftrightarrow> bit_len b \<le> i" for i
    by (auto simp: BitSet_get_def BITSET_ASSERT_def load_def and_then_def
        split: option.splits sum.splits)
  show ?thesis
    using s [of index] c [of index] f [of index] g [of index]
      s [of "bit_len b"] c [of "bit_len b"] f [of "bit_len b"] g [of "bit_len b"]
    by simp
qed

theorem debug_index_out_of_bounds_witness:
  "BitSet_set True (Some \<lparr>bits = Some [0], bit_len = 8\<rparr>) 8
     = Inl (Validation_failed ''BitSet_set: Index out of bounds'') \<and>
   BitSet_get True (Some \<lparr>bits = Some [0], bit_len = 8\<rparr>) 7
     \<noteq> Inl (Validation_failed ''BitSet_get: Index out of bounds'')"
  using debug_index_out_of_bounds [of "\<lparr>bits = Some [0], bit_len = 8\<rparr>" 7]
  by simp

section \<open>Allocation failure\<close>

text \<open>
  Claim C4 as stated fails: in a release build \<open>BitSet_init\<close> with a failed allocation
  returns normally, with a null buffer and the requested length, and reports nothing.
\<close>

theorem release_init_allocation_failure_unreported:
  "BitSet_init False False (Some \<lparr>bits = None, bit_len = 0\<rparr>) 8 = Inr \<lparr>bits = None, bit_len = 8\<rparr> \<and>
   \<not> isl (BitSet_init False False (Some \<lparr>bits = None, bit_len = 0\<rparr>) 8)"
  by (simp add: BitSet_init_def BITSET_ASSERT_def calloc_def Let_def)

text \<open>
  Claim C4, amended. A failed allocation is met by an assertion only. In a debug build
  \<open>BitSet_init\<close> and \<open>BitSet_copy_construct\<close> stop at the validation failure
  "Memory allocation failed" (the process is signalled, nothing is returned). In a release
  build \<open>BitSet_init\<close> returns normally with a null buffer and the requested length, and
  \<open>BitSet_copy_construct\<close> reports no validation failure either.
\<close>

theorem allocation_failure_asserted_only:
  "BitSet_init True False (Some b0) n
     = Inl (Validation_failed ''BitSet_init: Memory allocation failed'') \<and>
   BitSet_init False False (Some b0) n = Inr \<lparr>bits = None, bit_len = n\<rparr> \<and>
   BitSet_copy_construct True False junk (Some d0) (Some s)
     = Inl (Validation_failed ''BitSet_copy_construct: Memory allocation failed'') \<and>
   BitSet_copy_construct False False junk (Some d0) (Some s) \<noteq> Inl (Validation_failed msg)"
proof -
  have "BitSet_copy_construct False False junk (Some d0) (Some s) =
     (if (bit_len s + 7) div 8 = 0 then Inr \<lparr>bits = None, bit_len = bit_len s\<rparr>
      else case load (bits s) 0 of Inl e \<Rightarrow> Inl e | Inr x \<Rightarrow> Inl Null_dereference)"
    by (auto simp: BitSet_copy_construct_def BITSET_ASSERT_def malloc_def Let_def
        copy_loop_null_dest word_gt_0 split: sum.splits)
  then have "BitSet_copy_construct False False junk (Some d0) (Some s) \<noteq> Inl (Validation_failed msg)"
    by (auto simp: load_def split: sum.splits option.splits if_splits)
  then show ?thesis
    by (simp add: BitSet_init_def BitSet_copy_construct_def BITSET_ASSERT_def calloc_def
        malloc_def Let_def)
qed

section \<open>Single-bit operations\<close>

text \<open>
  Claim C5. On a bit set that satisfies the invariant and for \<open>index < bit_len\<close>, in either
  build: \<open>BitSet_set\<close> then \<open>BitSet_get\<close> gives 1; \<open>BitSet_clear\<close> then
  \<open>BitSet_get\<close> gives 0; \<open>BitSet_flip\<close> twice gives back the bit set, so
  \<open>BitSet_get\<close> reads the original value; and all four address bit \<open>index mod 8\<close> of byte
  \<open>index div 8\<close>, bit 0 being the least significant.
\<close>

theorem single_bit_operations:
  assumes "BitSet_wf b" and "index < bit_len b"
  shows "\<exists>b1 b2 b3 b4.
    BitSet_set debug_mode (Some b) index = Inr b1 \<and> BitSet_get debug_mode (Some b1) index = Inr 1 \<and>
    BitSet_clear debug_mode (Some b) index = Inr b2 \<and> BitSet_get debug_mode (Some b2) index = Inr 0 \<and>
    BitSet_flip debug_mode (Some b) index = Inr b3 \<and> BitSet_flip debug_mode (Some b3) index = Inr b4 \<and>
    BitSet_get debug_mode (Some b4) index = BitSet_get debug_mode (Some b) index \<and>
    BitSet_get debug_mode (Some b) index
      = Inr (of_bool (bit (storage b ! (unat index div 8)) (unat index mod 8))) \<and>
    storage b1 = (storage b)[unat index div 8 := set_bit (unat index mod 8) (storage b ! (unat index div 8))] \<and>
    storage b2 = (storage b)[unat index div 8 := unset_bit (unat index mod 8) (storage b ! (unat index div 8))] \<and>
    storage b3 = (storage b)[unat index div 8 := flip_bit (unat index mod 8) (storage b ! (unat index div 8))] \<and>
    bit_len b1 = bit_len b \<and> bit_len b2 = bit_len b \<and> bit_len b3 = bit_len b \<and> b4 = b"
proof -
  let ?k = "unat index div 8" and ?j = "unat index mod 8"
  let ?x = "storage b ! ?k"
  let ?b1 = "b\<lparr>bits := Some ((storage b)[?k := set_bit ?j ?x])\<rparr>"
  let ?b2 = "b\<lparr>bits := Some ((storage b)[?k := unset_bit ?j ?x])\<rparr>"
  let ?b3 = "b\<lparr>bits := Some ((storage b)[?k := flip_bit ?j ?x])\<rparr>"
  have k: "?k < length (storage b)" using wf_index(3) [OF assms] .
  have j: "?j < 8" by simp
  have w1: "BitSet_wf ?b1" and w2: "BitSet_wf ?b2" and w3: "BitSet_wf ?b3"
    using assms(1) by (simp_all add: wf_update)
  have i1: "index < bit_len ?b1" and i2: "index < bit_len ?b2" and i3: "index < bit_len ?b3"
    using assms(2) by simp_all
  have g1: "BitSet_get debug_mode (Some ?b1) index = Inr 1"
    using k j by (simp add: get_wf [OF w1 i1] bit_at_def bit_simps)
  have g2: "BitSet_get debug_mode (Some ?b2) index = Inr 0"
    using k j by (simp add: get_wf [OF w2 i2] bit_at_def bit_simps)
  have "flip_bit ?j (flip_bit ?j ?x) = ?x"
    by (rule bit_word_eqI) (auto simp: bit_simps)
  then have "(storage b)[?k := flip_bit ?j (flip_bit ?j ?x)] = storage b"
    by simp
  then have f2: "BitSet_flip debug_mode (Some ?b3) index = Inr b"
    using k wf_bits [OF assms(1)] by (simp add: flip_wf [OF w3 i3])
  show ?thesis
    using set_wf [OF assms] clear_wf [OF assms] flip_wf [OF assms] g1 g2 f2 get_wf [OF assms]
    by (simp add: bit_at_def)
qed

theorem single_bit_operations_witness:
  "BitSet_wf \<lparr>bits = Some [0, 0], bit_len = 10\<rparr> \<and> (9 :: size_t) < 10 \<and>
   (\<exists>b1. BitSet_set True (Some \<lparr>bits = Some [0, 0], bit_len = 10\<rparr>) 9 = Inr b1 \<and>
      BitSet_get True (Some b1) 9 = Inr 1)"
proof -
  have w: "BitSet_wf \<lparr>bits = Some [0, 0], bit_len = 10\<rparr>"
    by (simp add: BitSet_wf_def)
  have i: "(9 :: size_t) < bit_len \<lparr>bits = Some [0, 0], bit_len = 10\<rparr>"
    by simp
  from single_bit_operations [OF w i, of True] w show ?thesis
    by auto
qed

section \<open>Bulk fill\<close>

lemma store_const_loop:
  assumes "unat n \<le> length bytes"
  shows "for_loop 0 n (\<lambda>i p. store p i v) (Some bytes)
    = Inr (Some (replicate (unat n) v @ drop (unat n) bytes))"
proof -
  have "for_loop 0 n (\<lambda>i p. store p i v) (Some bytes)
      = Inr (Some (map (\<lambda>k. v) [0..<unat n] @ drop (unat n) bytes))"
  proof (rule for_loop_bytes [OF _ assms])
    fix k and bs :: "uint8_t list"
    assume "k < unat n" and "length bs = length bytes"
    then show "store (Some bs) (word_of_nat k) v = Inr (Some (bs[k := v]))"
      using assms by (simp add: store_def le_unat_uoi [of k n])
  qed
  then show ?thesis by (simp add: map_replicate_const)
qed

lemma set_all_wf:
  assumes "BitSet_wf b"
  shows "BitSet_set_all debug_mode (Some b)
    = Inr (b\<lparr>bits := Some (replicate ((unat (bit_len b) + 7) div 8) 0xFF)\<rparr>)"
  using wf_bits [OF assms] wf_byte_len [OF assms]
  by (simp add: BitSet_set_all_def BITSET_ASSERT_def store_const_loop)

lemma clear_all_wf:
  assumes "BitSet_wf b"
  shows "BitSet_clear_all debug_mode (Some b)
    = Inr (b\<lparr>bits := Some (replicate ((unat (bit_len b) + 7) div 8) 0)\<rparr>)"
  using wf_bits [OF assms] wf_byte_len [OF assms]
  by (simp add: BitSet_clear_all_def BITSET_ASSERT_def store_const_loop)

lemma get_replicate:
  assumes "BitSet_wf b" "index < bit_len b"
  shows "BitSet_get debug_mode (Some (b\<lparr>bits := Some (replicate ((unat (bit_len b) + 7) div 8) v)\<rparr>)) index
    = Inr (of_bool (bit v (unat index mod 8)))"
proof -
  let ?b = "b\<lparr>bits := Some (replicate ((unat (bit_len b) + 7) div 8) v)\<rparr>"
  have w: "BitSet_wf ?b" using assms(1) wf_bits [OF assms(1)] by (simp add: wf_update)
  have i: "index < bit_len ?b" using assms(2) by simp
  have "unat index div 8 < (unat (bit_len b) + 7) div 8"
    using wf_index(3) [OF assms] wf_bits [OF assms(1)] by simp
  then show ?thesis
    by (simp add: get_wf [OF w i] bit_at_def)
qed

text \<open>
  Claim C7. On a bit set that satisfies the invariant, \<open>BitSet_set_all\<close> leaves every
  storage byte \<open>0xFF\<close> and \<open>BitSet_clear_all\<close> leaves every storage byte \<open>0x00\<close>,
  padding bits of the last byte included; afterwards \<open>BitSet_get\<close> returns 1
  (respectively 0) for every \<open>index < bit_len\<close>.
\<close>

theorem set_all_clear_all:
  assumes "BitSet_wf b"
  shows "\<exists>b1 b0.
    BitSet_set_all debug_mode (Some b) = Inr b1 \<and> bit_len b1 = bit_len b \<and>
    bits b1 = Some (replicate (length (storage b)) 0xFF) \<and>
    (\<forall>index. index < bit_len b \<longrightarrow> BitSet_get debug_mode (Some b1) index = Inr 1) \<and>
    BitSet_clear_all debug_mode (Some b) = Inr b0 \<and> bit_len b0 = bit_len b \<and>
    bits b0 = Some (replicate (length (storage b)) 0x00) \<and>
    (\<forall>index. index < bit_len b \<longrightarrow> BitSet_get debug_mode (Some b0) index = Inr 0)"
proof -
  have j: "unat index mod 8 < 8" for index :: size_t by simp
  have "(0xFF :: uint8_t) = - 1"
    by simp
  then have "bit (0xFF :: uint8_t) k" if "k < 8" for k
    using that by (simp only: bit_minus_1_iff) (simp add: possible_bit_word)
  then have one: "BitSet_get debug_mode (Some (b\<lparr>bits := Some (replicate ((unat (bit_len b) + 7) div 8) 0xFF)\<rparr>)) index = Inr 1"
    if "index < bit_len b" for index
    using get_replicate [OF assms that, of debug_mode "0xFF"] j [of index] by simp
  have zero: "BitSet_get debug_mode (Some (b\<lparr>bits := Some (replicate ((unat (bit_len b) + 7) div 8) 0)\<rparr>)) index = Inr 0"
    if "index < bit_len b" for index
    using get_replicate [OF assms that, of debug_mode 0] by simp
  show ?thesis
    using set_all_wf [OF assms] clear_all_wf [OF assms] wf_bits [OF assms] one zero
    by simp
qed

theorem set_all_clear_all_witness:
  "BitSet_wf \<lparr>bits = Some [0x5A, 0x03], bit_len = 10\<rparr> \<and>
   (\<exists>b1. BitSet_set_all False (Some \<lparr>bits = Some [0x5A, 0x03], bit_len = 10\<rparr>) = Inr b1 \<and>
      bits b1 = Some [0xFF, 0xFF] \<and> BitSet_get False (Some b1) 9 = Inr 1)"
proof -
  have w: "BitSet_wf \<lparr>bits = Some [0x5A, 0x03], bit_len = 10\<rparr>"
    by (simp add: BitSet_wf_def)
  from set_all_clear_all [OF w, of False] w show ?thesis
    by (auto simp: storage_def)
qed

section \<open>Binary operations\<close>

lemma combine_loop:
  assumes "unat n \<le> length xs" and "unat n \<le> length ys"
    and h: "\<And>x y. h x y = ucast (f (ucast x :: c_int) (ucast y))"
  shows "for_loop 0 n
      (\<lambda>i p. and_then (load p i) (\<lambda>x. and_then (load (Some ys) i) (\<lambda>y.
         store p i (ucast (f (ucast x :: c_int) (ucast y)))))) (Some xs)
    = Inr (Some (combine_prefix h (unat n) xs ys))"
  unfolding combine_prefix_def
proof (rule for_loop_bytes [OF _ assms(1)])
  fix k and bs :: "uint8_t list"
  assume "k < unat n" and "length bs = length xs" and "bs ! k = xs ! k"
  then show "and_then (load (Some bs) (word_of_nat k)) (\<lambda>x. and_then (load (Some ys) (word_of_nat k)) (\<lambda>y.
         store (Some bs) (word_of_nat k) (ucast (f (ucast x :: c_int) (ucast y)))))
     = Inr (Some (bs[k := h (xs ! k) (ys ! k)]))"
    using assms(1,2) by (simp add: load_def store_def le_unat_uoi [of k n] h)
qed

lemma wf_shorter:
  assumes "BitSet_wf d" "BitSet_wf s"
  shows "unat ((bit_len (if bit_len d < bit_len s then d else s) + 7) div 8) \<le> length (storage d)"
    and "unat ((bit_len (if bit_len d < bit_len s then d else s) + 7) div 8) \<le> length (storage s)"
proof -
  have "unat (bit_len d) < unat (bit_len s) \<or> unat (bit_len s) \<le> unat (bit_len d)"
    by arith
  then show "unat ((bit_len (if bit_len d < bit_len s then d else s) + 7) div 8) \<le> length (storage d)"
    and "unat ((bit_len (if bit_len d < bit_len s then d else s) + 7) div 8) \<le> length (storage s)"
    using wf_bits [OF assms(1)] wf_bits [OF assms(2)] wf_byte_len [OF assms(1)] wf_byte_len [OF assms(2)]
    by (auto simp: word_less_nat_alt intro: div_le_mono)
qed

text \<open>
  Claim C1. For bit sets \<open>dest\<close> and \<open>src\<close> that satisfy the invariant, \<open>BitSet_or\<close>,
  \<open>BitSet_and\<close> and \<open>BitSet_xor\<close> process \<open>byte_len\<close> bytes, where \<open>byte_len\<close> is
  \<open>BitSet_get_byte_len\<close> of the operand picked by \<open>dest->bit_len < src->bit_len\<close>;
  that many bytes fit both buffers; byte \<open>k\<close> of \<open>dest\<close> becomes the combination of byte
  \<open>k\<close> of both for \<open>k < byte_len\<close>, and every later byte of \<open>dest\<close> is unchanged.
\<close>

theorem binary_operations_truncate:
  assumes "BitSet_wf dest" and "BitSet_wf src"
  shows "\<exists>byte_len.
    BitSet_get_byte_len debug_mode (Some (if bit_len dest < bit_len src then dest else src))
      = Inr byte_len \<and>
    unat byte_len \<le> length (storage dest) \<and> unat byte_len \<le> length (storage src) \<and>
    BitSet_or debug_mode (Some dest) (Some src)
      = Inr (dest\<lparr>bits := Some (combine_prefix (OR) (unat byte_len) (storage dest) (storage src))\<rparr>) \<and>
    BitSet_and debug_mode (Some dest) (Some src)
      = Inr (dest\<lparr>bits := Some (combine_prefix (AND) (unat byte_len) (storage dest) (storage src))\<rparr>) \<and>
    BitSet_xor debug_mode (Some dest) (Some src)
      = Inr (dest\<lparr>bits := Some (combine_prefix (XOR) (unat byte_len) (storage dest) (storage src))\<rparr>) \<and>
    (\<forall>f k. k < unat byte_len \<longrightarrow>
       combine_prefix f (unat byte_len) (storage dest) (storage src) ! k
         = f (storage dest ! k) (storage src ! k)) \<and>
    (\<forall>f k. unat byte_len \<le> k \<and> k < length (storage dest) \<longrightarrow>
       combine_prefix f (unat byte_len) (storage dest) (storage src) ! k = storage dest ! k) \<and>
    (\<forall>f. length (combine_prefix f (unat byte_len) (storage dest) (storage src))
       = length (storage dest))"
proof -
  define n where "n = (bit_len (if bit_len dest < bit_len src then dest else src) + 7) div 8"
  have le: "unat n \<le> length (storage dest)" "unat n \<le> length (storage src)"
    unfolding n_def by (rule wf_shorter [OF assms])+
  have d: "bits dest = Some (storage dest)" and s: "bits src = Some (storage src)"
    using wf_bits [OF assms(1)] wf_bits [OF assms(2)] by simp_all
  have n: "BitSet_get_byte_len debug_mode (if bit_len dest < bit_len src then Some dest else Some src)
      = Inr n"
    by (simp add: n_def)
  have n': "BitSet_get_byte_len debug_mode (Some (if bit_len dest < bit_len src then dest else src))
      = Inr n"
    by (simp add: n_def)
  have o: "BitSet_or debug_mode (Some dest) (Some src)
      = Inr (dest\<lparr>bits := Some (combine_prefix (OR) (unat n) (storage dest) (storage src))\<rparr>)"
    using combine_loop [OF le, where h = "(OR)" and f = "(OR)", OF promote_or [symmetric]]
    by (simp add: BitSet_or_def BITSET_ASSERT_def n d s del: BitSet_get_byte_len_Some)
  have a: "BitSet_and debug_mode (Some dest) (Some src)
      = Inr (dest\<lparr>bits := Some (combine_prefix (AND) (unat n) (storage dest) (storage src))\<rparr>)"
    using combine_loop [OF le, where h = "(AND)" and f = "(AND)", OF promote_and [symmetric]]
    by (simp add: BitSet_and_def BITSET_ASSERT_def n d s del: BitSet_get_byte_len_Some)
  have x: "BitSet_xor debug_mode (Some dest) (Some src)
      = Inr (dest\<lparr>bits := Some (combine_prefix (XOR) (unat n) (storage dest) (storage src))\<rparr>)"
    using combine_loop [OF le, where h = "(XOR)" and f = "(XOR)", OF promote_xor [symmetric]]
    by (simp add: BitSet_xor_def BITSET_ASSERT_def n d s del: BitSet_get_byte_len_Some)
  have p1: "combine_prefix f (unat n) (storage dest) (storage src) ! k
         = f (storage dest ! k) (storage src ! k)" if "k < unat n" for f k
    using that by (simp add: combine_prefix_def nth_append)
  have p2: "combine_prefix f (unat n) (storage dest) (storage src) ! k = storage dest ! k"
    if "unat n \<le> k" "k < length (storage dest)" for f k
    using that by (simp add: combine_prefix_def nth_append)
  have p3: "length (combine_prefix f (unat n) (storage dest) (storage src)) = length (storage dest)" for f
    using le(1) by (simp add: combine_prefix_def)
  show ?thesis
    using n' o a x p1 p2 p3 le by (intro exI [of _ n]) (simp del: BitSet_get_byte_len_Some)
qed

theorem binary_operations_truncate_witness:
  "BitSet_wf \<lparr>bits = Some [0x01, 0x02], bit_len = 16\<rparr> \<and> BitSet_wf \<lparr>bits = Some [0xF0], bit_len = 8\<rparr> \<and>
   BitSet_or True (Some \<lparr>bits = Some [0x01, 0x02], bit_len = 16\<rparr>) (Some \<lparr>bits = Some [0xF0], bit_len = 8\<rparr>)
     = Inr \<lparr>bits = Some [0xF1, 0x02], bit_len = 16\<rparr> \<and>
   BitSet_get_byte_len True (Some \<lparr>bits = None, bit_len = 57\<rparr>) = Inr 8 \<and>
   BitSet_get_byte_len True (Some \<lparr>bits = None, bit_len = 60\<rparr>) = Inr 8"
proof -
  have d: "BitSet_wf \<lparr>bits = Some [0x01, 0x02], bit_len = 16\<rparr>"
    by (simp add: BitSet_wf_def)
  have s: "BitSet_wf \<lparr>bits = Some [0xF0], bit_len = 8\<rparr>"
    by (simp add: BitSet_wf_def)
  from binary_operations_truncate [OF d s, of True] d s show ?thesis
    by (auto simp: combine_prefix_def storage_def)
qed

section \<open>Equality\<close>

lemma equals_loop_wf:
  assumes "unat n \<le> length xs" "unat n \<le> length ys"
  shows "BitSet_equals_loop i n (Some xs) (Some ys)
    = Inr (if \<forall>k. unat i \<le> k \<and> k < unat n \<longrightarrow> xs ! k = ys ! k then 1 else 0)"
  using assms
proof (induction i n "Some xs" "Some ys" rule: BitSet_equals_loop.induct)
  case (1 i n)
  note len = "1.prems"
  show ?case
  proof (cases "i < n")
    case True
    then have lt: "unat i < unat n" by (simp add: word_less_nat_alt)
    have suc: "unat (i + 1) = Suc (unat i)" using True by unat_arith
    have ld: "load (Some xs) i = Inr (xs ! unat i)" "load (Some ys) i = Inr (ys ! unat i)"
      using lt len by (simp_all add: load_def)
    show ?thesis
    proof (cases "xs ! unat i = ys ! unat i")
      case same: True
      have "(\<forall>k. unat i \<le> k \<and> k < unat n \<longrightarrow> xs ! k = ys ! k)
          \<longleftrightarrow> (\<forall>k. Suc (unat i) \<le> k \<and> k < unat n \<longrightarrow> xs ! k = ys ! k)"
        using same by (metis Suc_leI le_neq_implies_less Suc_leD)
      then show ?thesis
        using True same ld "1.hyps" [OF True _ len, of "xs ! unat i" "ys ! unat i"] suc
        by (subst BitSet_equals_loop.simps) simp
    next
      case False
      then have "\<not> (\<forall>k. unat i \<le> k \<and> k < unat n \<longrightarrow> xs ! k = ys ! k)"
        using lt by auto
      then show ?thesis
        using True False ld by (subst BitSet_equals_loop.simps) simp
    qed
  next
    case False
    then have "unat n \<le> unat i" by (simp add: word_less_nat_alt)
    then show ?thesis
      using False by (subst BitSet_equals_loop.simps) auto
  qed
qed

text \<open>
  Claim C6. For bit sets that satisfy the invariant, \<open>BitSet_equals\<close> returns 0 when the
  bit lengths differ and otherwise 1 exactly when the two buffers are the same byte for
  byte, padding bits included.
\<close>

theorem equals_storage_exact:
  assumes "BitSet_wf a" and "BitSet_wf b"
  shows "BitSet_equals debug_mode (Some a) (Some b)
    = Inr (if bit_len a = bit_len b \<and> storage a = storage b then 1 else 0)"
proof (cases "bit_len a = bit_len b")
  case False
  then show ?thesis
    by (simp add: BitSet_equals_def BITSET_ASSERT_def)
next
  case True
  note wa = wf_bits [OF assms(1)] and wb = wf_bits [OF assms(2)]
  have la: "unat ((bit_len a + 7) div 8) = length (storage a)"
    using wa wf_byte_len [OF assms(1)] by simp
  have lb: "unat ((bit_len a + 7) div 8) = length (storage b)"
    using wb wf_byte_len [OF assms(2)] True by simp
  have "(\<forall>k. k < length (storage a) \<longrightarrow> storage a ! k = storage b ! k) \<longleftrightarrow> storage a = storage b"
    using la lb by (auto simp: list_eq_iff_nth_eq)
  then show ?thesis
    using True wa wb equals_loop_wf [of "(bit_len a + 7) div 8" "storage a" "storage b" 0] la lb
    by (simp add: BitSet_equals_def BITSET_ASSERT_def)
qed


theorem equals_storage_exact_witness:
  "BitSet_wf \<lparr>bits = Some [0x05], bit_len = 4\<rparr> \<and> BitSet_wf \<lparr>bits = Some [0x15], bit_len = 4\<rparr> \<and>
   BitSet_equals True (Some \<lparr>bits = Some [0x05], bit_len = 4\<rparr>) (Some \<lparr>bits = Some [0x15], bit_len = 4\<rparr>) = Inr 0"
proof -
  have a: "BitSet_wf \<lparr>bits = Some [0x05], bit_len = 4\<rparr>"
    by (simp add: BitSet_wf_def)
  have b: "BitSet_wf \<lparr>bits = Some [0x15], bit_len = 4\<rparr>"
    by (simp add: BitSet_wf_def)
  from equals_storage_exact [OF a b, of True] a b show ?thesis
    by (simp add: storage_def)
qed

section \<open>Initialisation\<close>

text \<open>
  While \<open>bit_len + 7\<close> does not wrap, \<open>BitSet_init\<close> with a granted allocation
  establishes the invariant with \<open>ceil(bit_len / 8)\<close> zero bytes, and every bit reads 0.
\<close>

lemma init_in_range:
  assumes "unat n + 7 < 2 ^ 64"
  shows "BitSet_init debug_mode True (Some b0) n
      = Inr \<lparr>bits = Some (replicate ((unat n + 7) div 8) 0), bit_len = n\<rparr>"
    and "BitSet_wf \<lparr>bits = Some (replicate ((unat n + 7) div 8) 0), bit_len = n\<rparr>"
    and "index < n \<Longrightarrow>
      BitSet_get debug_mode (Some \<lparr>bits = Some (replicate ((unat n + 7) div 8) 0), bit_len = n\<rparr>) index = Inr 0"
proof -
  let ?b = "\<lparr>bits = Some (replicate ((unat n + 7) div 8) 0), bit_len = n\<rparr>"
  have "unat ((n + 7) div 8) = (unat n + 7) div 8"
    using assms by (simp add: unat_div unat_word_ariths)
  then show "BitSet_init debug_mode True (Some b0) n = Inr ?b"
    by (simp add: BitSet_init_def BITSET_ASSERT_def calloc_def Let_def)
  show w: "BitSet_wf ?b"
    using assms by (simp add: BitSet_wf_def)
  show "BitSet_get debug_mode (Some ?b) index = Inr 0" if "index < n"
  proof -
    have i: "index < bit_len ?b" using that by simp
    have "unat index div 8 < (unat n + 7) div 8"
      using wf_index(3) [OF w i] by (simp add: storage_def)
    then show ?thesis
      by (simp add: get_wf [OF w i] bit_at_def storage_def)
  qed
qed

text \<open>
  Claim C3 at \<open>n = SIZE_MAX\<close>: the sum \<open>bit_len + 7\<close> wraps to 6, so the byte length is 0
  and not \<open>ceil(n / 8) = 2^61\<close>; \<open>calloc\<close> hands out an empty buffer and reading bit 0,
  an index below \<open>n\<close>, leaves the buffer in either build.
\<close>

theorem init_length_wraps:
  "BitSet_init False True (Some \<lparr>bits = None, bit_len = 0\<rparr>) 0xFFFFFFFFFFFFFFFF
     = Inr \<lparr>bits = Some [], bit_len = 0xFFFFFFFFFFFFFFFF\<rparr> \<and>
   BitSet_get_byte_len False (Some \<lparr>bits = Some [], bit_len = 0xFFFFFFFFFFFFFFFF\<rparr>) = Inr 0 \<and>
   (unat (0xFFFFFFFFFFFFFFFF :: size_t) + 7) div 8 = 2305843009213693952 \<and>
   BitSet_get False (Some \<lparr>bits = Some [], bit_len = 0xFFFFFFFFFFFFFFFF\<rparr>) 0 = Inl Out_of_bounds \<and>
   BitSet_get True (Some \<lparr>bits = Some [], bit_len = 0xFFFFFFFFFFFFFFFF\<rparr>) 0 = Inl Out_of_bounds"
  by (simp add: BitSet_init_def BitSet_get_def BITSET_ASSERT_def calloc_def Let_def load_def)

section \<open>Index mapping in closed form\<close>

lemma digits_mod: "mixed_radix_digits ds (k mod prod_list ds) = mixed_radix_digits ds k"
proof (induction ds arbitrary: k)
  case Nil
  then show ?case by simp
next
  case (Cons d ds)
  have a: "(k mod (d * prod_list ds)) mod d = k mod d"
    by (simp add: mod_mod_cancel)
  have b: "(k mod (d * prod_list ds)) div d = (k div d) mod prod_list ds"
  proof (cases "d = 0")
    case True
    then show ?thesis by simp
  next
    case False
    then show ?thesis by (simp add: mod_mult2_eq)
  qed
  show ?case
    using Cons.IH [of "k div d"] by (simp add: a b)
qed

lemma value_less:
  "length xs = length ds \<Longrightarrow> \<forall>i<length ds. xs ! i < ds ! i \<Longrightarrow>
   mixed_radix_value ds xs < prod_list ds"
proof (induction ds xs rule: mixed_radix_value.induct)
  case (1 d ds x xs)
  have x: "x < d" using "1.prems"(2) by auto
  have r: "\<forall>i<length ds. xs ! i < ds ! i" using "1.prems"(2) by auto
  have "Suc (mixed_radix_value ds xs) \<le> prod_list ds"
    using "1.IH" "1.prems"(1) r by simp
  then have "d * Suc (mixed_radix_value ds xs) \<le> d * prod_list ds"
    by (rule mult_le_mono2)
  then show ?case using x by simp
qed simp_all

lemma digits_value:
  "length xs = length ds \<Longrightarrow> \<forall>i<length ds. xs ! i < ds ! i \<Longrightarrow>
   mixed_radix_digits ds (mixed_radix_value ds xs) = xs"
proof (induction ds xs rule: mixed_radix_value.induct)
  case (1 d ds x xs)
  have x: "x < d" using "1.prems"(2) by auto
  have r: "\<forall>i<length ds. xs ! i < ds ! i" using "1.prems"(2) by auto
  have "(x + d * mixed_radix_value ds xs) mod d = x" using x by simp
  moreover have "(x + d * mixed_radix_value ds xs) div d = mixed_radix_value ds xs" using x by simp
  ultimately show ?case using "1.IH" "1.prems"(1) r by simp
qed simp_all


lemma linear_index_loop_value:
  assumes "unat i \<le> length dims" and "unat i \<le> length indices"
  shows "linear_index_loop i dims indices index multiplier
    = Inr (index + multiplier * of_nat (mixed_radix_value
        (rev (map unat (take (unat i) dims))) (rev (map unat (take (unat i) indices)))))"
  using assms
proof (induction i dims indices index multiplier rule: linear_index_loop.induct)
  case (1 i dims indices index multiplier)
  show ?case
  proof (cases "0 < i")
    case False
    then have "i = 0" by (simp add: word_gt_0)
    then show ?thesis by (subst linear_index_loop.simps) simp
  next
    case True
    define k where "k = unat (i - 1)"
    have ki: "unat i = Suc k" using True unfolding k_def by unat_arith
    have kd: "k < length dims" and kx: "k < length indices"
      using "1.prems" ki by simp_all
    have td: "take (Suc k) dims = take k dims @ [dims ! k]"
      and tx: "take (Suc k) indices = take k indices @ [indices ! k]"
      using kd kx by (simp_all add: take_Suc_conv_app_nth)
    have ih: "linear_index_loop (i - 1) dims indices
          (index + indices ! k * multiplier) (multiplier * dims ! k)
        = Inr (index + indices ! k * multiplier + multiplier * dims ! k * of_nat (mixed_radix_value
            (rev (map unat (take k dims))) (rev (map unat (take k indices)))))"
      using "1.IH" [OF True refl] kd kx by (simp add: k_def)
    have "linear_index_loop i dims indices index multiplier
        = linear_index_loop (i - 1) dims indices
            (index + indices ! k * multiplier) (multiplier * dims ! k)"
      using True kd kx by (subst linear_index_loop.simps) (simp add: k_def Let_def)
    also note ih
    also have "index + indices ! k * multiplier + multiplier * dims ! k * of_nat (mixed_radix_value
            (rev (map unat (take k dims))) (rev (map unat (take k indices))))
        = index + multiplier * of_nat (mixed_radix_value
            (rev (map unat (take (Suc k) dims))) (rev (map unat (take (Suc k) indices))))"
      by (simp add: td tx algebra_simps)
    finally show ?thesis
      by (simp only: ki)
  qed
qed

lemma inverse_linear_index_loop_digits:
  assumes "length dims = unat num_dims" and "length indices = unat num_dims"
    and "\<forall>d \<in> set dims. d \<noteq> 0" and "i \<le> num_dims"
  shows "inverse_linear_index_loop i num_dims dims index indices
    = Inr (map of_nat (rev (mixed_radix_digits
          (rev (map unat (take (unat num_dims - unat i) dims))) (unat index)))
        @ drop (unat num_dims - unat i) indices)"
  using assms
proof (induction i num_dims dims index indices rule: inverse_linear_index_loop.induct)
  case (1 i num_dims dims index indices)
  show ?case
  proof (cases "i < num_dims")
    case False
    then have "i = num_dims" using "1.prems"(4) by simp
    then show ?thesis by (subst inverse_linear_index_loop.simps) simp
  next
    case True
    define k where "k = unat (num_dims - 1 - i)"
    have k: "unat num_dims - unat i = Suc k" using True unfolding k_def by unat_arith
    have k': "unat num_dims - unat (i + 1) = k" using True unfolding k_def by unat_arith
    have le: "i + 1 \<le> num_dims" using True by unat_arith
    have kd: "k < length dims" and kx: "k < length indices"
      using "1.prems"(1,2) k by simp_all
    have nz: "dims ! k \<noteq> 0" using "1.prems"(3) kd by simp
    have td: "take (Suc k) dims = take k dims @ [dims ! k]"
      using kd by (simp add: take_Suc_conv_app_nth)
    have dr: "drop k (indices[k := v]) = v # drop (Suc k) indices" for v
      using kx by (simp add: drop_update_swap [symmetric] Cons_nth_drop_Suc [symmetric] flip: upd_conv_take_nth_drop)
    have ih: "inverse_linear_index_loop (i + 1) num_dims dims (index div dims ! k)
          (indices[k := index mod dims ! k])
        = Inr (map of_nat (rev (mixed_radix_digits
              (rev (map unat (take k dims))) (unat (index div dims ! k))))
            @ drop k (indices[k := index mod dims ! k]))"
      using "1.IH" [OF True refl _ nz [unfolded k_def]] kd kx "1.prems"(1,2,3) le k'
      by (simp add: k_def)
    have "inverse_linear_index_loop i num_dims dims index indices
        = inverse_linear_index_loop (i + 1) num_dims dims (index div dims ! k)
            (indices[k := index mod dims ! k])"
      using True kd kx nz by (subst inverse_linear_index_loop.simps) (simp add: k_def Let_def)
    then show ?thesis
      by (simp add: ih k td dr unat_div unat_mod flip: unat_mod)
  qed
qed

lemma inverse_linear_index_digits:
  assumes "length dims = unat num_dims" and "length indices = unat num_dims"
    and "\<forall>d \<in> set dims. d \<noteq> 0"
  shows "inverse_linear_index num_dims dims index indices
    = Inr (map of_nat (rev (mixed_radix_digits (rev (map unat dims)) (unat index))))"
  using inverse_linear_index_loop_digits [OF assms, of 0 index] assms(1,2)
  by (simp add: inverse_linear_index_def)

lemma linear_index_value:
  assumes "length dims = unat num_dims" and "length indices = unat num_dims"
  shows "linear_index num_dims dims indices
    = Inr (of_nat (mixed_radix_value (rev (map unat dims)) (rev (map unat indices))))"
  using linear_index_loop_value [of num_dims dims indices 0 1] assms
  by (simp add: linear_index_def)

lemma length_digits [simp]: "length (mixed_radix_digits ds k) = length ds"
  by (induction ds arbitrary: k) simp_all

lemma digits_nth:
  "i < length ds \<Longrightarrow> mixed_radix_digits ds k ! i = (k div prod_list (take i ds)) mod ds ! i"
proof (induction ds arbitrary: k i)
  case Nil
  then show ?case by simp
next
  case (Cons d ds)
  show ?case
  proof (cases i)
    case 0
    then show ?thesis by simp
  next
    case (Suc j)
    then have "j < length ds" using Cons.prems by simp
    then show ?thesis
      using Cons.IH [of j "k div d"] Suc by (simp add: div_mult2_eq)
  qed
qed

lemma coordinate_closed_form:
  assumes "d < length dims" and "dims ! d \<noteq> (0 :: size_t)"
  shows "unat ((map of_nat (rev (mixed_radix_digits (rev (map unat dims)) k)) :: size_t list) ! d)
    = (k div prod_list (map unat (drop (Suc d) dims))) mod unat (dims ! d)"
proof -
  let ?ds = "map unat dims"
  let ?n = "length dims"
  let ?D = "mixed_radix_digits (rev ?ds) k"
  have j: "?n - Suc d < length (rev ?ds)" using assms(1) by simp
  have "rev ?D ! d = ?D ! (?n - Suc d)"
    using assms(1) by (simp add: rev_nth)
  also have "\<dots> = (k div prod_list (take (?n - Suc d) (rev ?ds))) mod rev ?ds ! (?n - Suc d)"
    using j by (rule digits_nth)
  also have "rev ?ds ! (?n - Suc d) = unat (dims ! d)"
    using assms(1) by (simp add: rev_nth)
  also have "take (?n - Suc d) (rev ?ds) = rev (map unat (drop (Suc d) dims))"
  proof -
    have "take (?n - Suc d) (rev ?ds) = rev (drop (length ?ds - (?n - Suc d)) ?ds)"
      by (rule take_rev)
    also have "length ?ds - (?n - Suc d) = Suc d"
      using assms(1) by simp
    finally show ?thesis
      by (simp only: drop_map)
  qed
  finally have v: "rev ?D ! d = (k div prod_list (map unat (drop (Suc d) dims))) mod unat (dims ! d)"
    by (simp add: prod_list.rev)
  have "0 < unat (dims ! d)"
    using assms(2) by (simp add: unat_gt_0)
  then have "rev ?D ! d \<le> unat (dims ! d)"
    unfolding v by (simp add: less_imp_le)
  then have "unat (of_nat (rev ?D ! d) :: size_t) = rev ?D ! d"
    by (rule le_unat_uoi)
  then show ?thesis
    using assms(1) v by simp
qed

text \<open>
  Claim C8. For dimensions that are all positive and any linear index, in particular one
  at or beyond the product of the dimensions, \<open>inverse_linear_index\<close> does not fail and
  returns the coordinates of that index modulo the product: \<open>num_dims\<close> entries, entry
  \<open>d\<close> being the wrapped index divided by the product of the later dimensions, modulo
  \<open>dims[d]\<close>. It is the result the function gives for the wrapped index itself.
\<close>

theorem inverse_linear_index_wraps:
  assumes "length dims = unat num_dims" and "length indices = unat num_dims"
    and "\<forall>d \<in> set dims. d \<noteq> 0"
  shows "\<exists>r. inverse_linear_index num_dims dims index indices = Inr r \<and>
    inverse_linear_index num_dims dims (of_nat (unat index mod prod_list (map unat dims))) indices
      = Inr r \<and>
    length r = unat num_dims \<and>
    r = map of_nat (rev (mixed_radix_digits (rev (map unat dims))
          (unat index mod prod_list (map unat dims)))) \<and>
    (\<forall>d<length dims. unat (r ! d)
       = (unat index mod prod_list (map unat dims)) div prod_list (map unat (drop (Suc d) dims))
           mod unat (dims ! d))"
proof -
  let ?P = "prod_list (map unat dims)"
  let ?r = "map of_nat (rev (mixed_radix_digits (rev (map unat dims)) (unat index mod ?P))) :: size_t list"
  have "unat index mod ?P \<le> unat index"
    by (rule mod_less_eq_dividend)
  then have u: "unat (of_nat (unat index mod ?P) :: size_t) = unat index mod ?P"
    by (rule le_unat_uoi)
  have "?P = prod_list (rev (map unat dims))"
    by (simp add: prod_list.rev)
  then have m: "mixed_radix_digits (rev (map unat dims)) (unat index mod ?P)
      = mixed_radix_digits (rev (map unat dims)) (unat index)"
    by (simp only: digits_mod)
  have a: "inverse_linear_index num_dims dims index indices = Inr ?r"
    by (simp only: inverse_linear_index_digits [OF assms] m)
  have b: "inverse_linear_index num_dims dims (of_nat (unat index mod ?P)) indices = Inr ?r"
    by (simp only: inverse_linear_index_digits [OF assms] u)
  have l: "length ?r = unat num_dims"
    using assms(1) by simp
  have c: "\<forall>d<length dims. unat (?r ! d)
       = (unat index mod ?P) div prod_list (map unat (drop (Suc d) dims)) mod unat (dims ! d)"
  proof (intro allI impI)
    fix d assume d: "d < length dims"
    then have "dims ! d \<noteq> 0" using assms(3) by simp
    with d show "unat (?r ! d)
       = (unat index mod ?P) div prod_list (map unat (drop (Suc d) dims)) mod unat (dims ! d)"
      by (rule coordinate_closed_form)
  qed
  from a b l c show ?thesis
    by blast
qed

theorem inverse_linear_index_wraps_witness:
  "length [2, 3 :: size_t] = unat (2 :: size_t) \<and> length [9, 9 :: size_t] = unat (2 :: size_t) \<and>
   inverse_linear_index 2 [2, 3] 7 [9, 9] = Inr [0, 1] \<and>
   inverse_linear_index 2 [2, 3] 1 [9, 9] = Inr [0, 1] \<and>
   inverse_linear_index 2 [2, 3] 6 [9, 9] = Inr [0, 0]"
proof -
  have a: "length [2, 3 :: size_t] = unat (2 :: size_t)" by simp
  have b: "length [9, 9 :: size_t] = unat (2 :: size_t)" by simp
  have c: "\<forall>d \<in> set [2, 3 :: size_t]. d \<noteq> 0" by simp
  from inverse_linear_index_wraps [OF a b c, of 7] inverse_linear_index_wraps [OF a b c, of 6]
  show ?thesis
    by simp
qed

text \<open>
  Claim C2 as stated fails: with dimensions \<open>3\<close> and \<open>2^63\<close> the linear index of the
  coordinates \<open>(2, 0)\<close> is \<open>2 * 2^63\<close>, which wraps to 0 in \<open>size_t\<close>, and the inverse
  mapping of 0 is \<open>(0, 0)\<close>.
\<close>

theorem index_round_trip_overflow:
  "linear_index 2 [3, 0x8000000000000000] [2, 0] = Inr 0 \<and>
   inverse_linear_index 2 [3, 0x8000000000000000] 0 [7, 7] = Inr [0, 0] \<and>
   inverse_linear_index 2 [3, 0x8000000000000000] 0 [7, 7] \<noteq> Inr [2, 0]"
  by (simp add: linear_index_def linear_index_loop.simps
      inverse_linear_index_def inverse_linear_index_loop.simps)

text \<open>
  Claim C2, amended. For dimensions whose product is at most \<open>2^64\<close>, so that every linear
  index fits \<open>size_t\<close>, and coordinates \<open>indices[i] < dims[i]\<close>, \<open>linear_index\<close>
  returns an index from which \<open>inverse_linear_index\<close> reproduces the coordinates exactly.
\<close>

theorem index_round_trip:
  assumes "length dims = unat num_dims" and "length indices = unat num_dims"
    and "length out = unat num_dims"
    and "\<forall>i<length dims. indices ! i < dims ! i"
    and "prod_list (map unat dims) \<le> 2 ^ 64"
  shows "\<exists>k. linear_index num_dims dims indices = Inr k \<and>
    inverse_linear_index num_dims dims k out = Inr indices"
proof -
  let ?ds = "rev (map unat dims)" and ?xs = "rev (map unat indices)"
  let ?V = "mixed_radix_value ?ds ?xs"
  have len: "length ?xs = length ?ds" using assms(1,2) by simp
  have lt: "\<forall>i<length ?ds. ?xs ! i < ?ds ! i"
    using assms(1,2,4) by (simp add: rev_nth word_less_nat_alt)
  have "?V < prod_list ?ds"
    using value_less [OF len lt] .
  then have "?V < 2 ^ 64"
    using assms(5) by (simp add: prod_list.rev)
  then have u: "unat (of_nat ?V :: size_t) = ?V"
    by (simp add: unat_of_nat)
  have nz: "\<forall>d \<in> set dims. d \<noteq> 0"
  proof
    fix d assume "d \<in> set dims"
    then obtain i where "i < length dims" "dims ! i = d"
      by (auto simp: in_set_conv_nth)
    then have "indices ! i < d" using assms(4) by auto
    then show "d \<noteq> 0" by (auto simp: word_less_nat_alt)
  qed
  have "map of_nat (rev (mixed_radix_digits ?ds ?V)) = (indices :: size_t list)"
    by (simp add: digits_value [OF len lt] rev_map [symmetric] map_idI)
  then show ?thesis
    using linear_index_value [OF assms(1,2)]
      inverse_linear_index_digits [OF assms(1,3) nz, of "of_nat ?V"] u
    by simp
qed

theorem index_round_trip_witness:
  "inverse_linear_index 2 [2, 2] 3 [0, 0] = Inr [1, 1] \<and> linear_index 2 [2, 2] [1, 1] = Inr 3"
proof -
  have a: "length [2, 2 :: size_t] = unat (2 :: size_t)" by simp
  have b: "length [1, 1 :: size_t] = unat (2 :: size_t)" by simp
  have c: "length [0, 0 :: size_t] = unat (2 :: size_t)" by simp
  have d: "\<forall>i<length [2, 2 :: size_t]. [1, 1 :: size_t] ! i < [2, 2] ! i"
    by (simp add: less_Suc_eq nth_Cons')
  have e: "prod_list (map unat [2, 2 :: size_t]) \<le> 2 ^ 64" by simp
  have f: "linear_index 2 [2, 2] [1, 1] = Inr 3"
    by (simp add: linear_index_def linear_index_loop.simps)
  from index_round_trip [OF a b c d e] f show ?thesis
    by simp
qed


section \<open>Printing\<close>

lemma char_of_digits: "char_of (48 :: nat) = CHR ''0''" "char_of (49 :: nat) = CHR ''1''"
  by code_simp code_simp

lemma printf_d_01: "printf_d 0 = ''0''" "printf_d 1 = ''1''"
  by (simp_all add: printf_d_def dec_digits.simps char_of_digits)

lemma scast_pos:
  assumes "0 < sint (w :: c_int)"
  shows "unat (scast w :: size_t) = nat (sint w)"
proof -
  have "sint w < 2 ^ 31"
    using sint_lt [of w] by simp
  with assms have t: "take_bit 64 (sint w) = sint w"
    by (intro take_bit_int_eq_self) simp_all
  have "unat (scast w :: size_t) = unat (word_of_int (sint w) :: size_t)"
    by (simp only: scast_eq)
  also have "\<dots> = nat (take_bit 64 (sint w))"
    by (simp only: unsigned_of_int) simp
  finally show ?thesis
    by (simp only: t)
qed

lemma for_loop_append:
  assumes body: "\<And>k out. k < unat n \<Longrightarrow> body (of_nat k) out = Inr (out @ piece k)"
  shows "for_loop 0 n body out0 = Inr (out0 @ concat (map piece [0..<unat n]))"
proof -
  have "m \<le> unat n \<Longrightarrow>
        for_loop 0 (of_nat m) body out0 = Inr (out0 @ concat (map piece [0..<m]))" for m
  proof (induction m)
    case 0
    then show ?case by (simp add: for_loop_done)
  next
    case (Suc m)
    have lt: "m < unat n" using Suc.prems by simp
    have "unat (of_nat (Suc m) :: size_t) = Suc m"
      using Suc.prems by (rule le_unat_uoi)
    then have "(of_nat (Suc m) :: size_t) \<noteq> 0"
      by (metis Zero_not_Suc unat_0)
    then have nz: "(of_nat m :: size_t) + 1 \<noteq> 0"
      by (simp add: add.commute)
    have "for_loop 0 (of_nat (Suc m)) body out0
        = and_then (for_loop 0 (of_nat m) body out0) (body (of_nat m))"
      using for_loop_last [of 0 "of_nat m" body out0] nz by (simp add: add.commute)
    also have "\<dots> = body (of_nat m) (out0 @ concat (map piece [0..<m]))"
      using Suc.IH lt by simp
    also have "\<dots> = Inr (out0 @ concat (map piece [0..<m]) @ piece m)"
      using body [OF lt] by simp
    finally show ?case by simp
  qed
  from this [of "unat n"] show ?thesis by simp
qed

lemma concat_singletons: "concat (map (\<lambda>k. [f k]) ks) = map f ks"
  by (induction ks) simp_all

lemma group_lines_positions:
  assumes "0 < g"
  shows "concat (map (\<lambda>k. s ! k # (if (k + 1) mod g = 0 then [CHR 0x0A] else [])) [0..<length s])
    = group_lines g s"
  using assms
proof (induction g s rule: group_lines.induct)
  case (1 g s)
  let ?piece = "\<lambda>t k. t ! k # (if (k + 1) mod g = 0 then [CHR 0x0A] else [])"
  show ?case
  proof (cases "length s < g")
    case True
    have "map (?piece s) [0..<length s] = map (\<lambda>k. [s ! k]) [0..<length s]"
      using True by (intro map_cong) auto
    then have "concat (map (?piece s) [0..<length s]) = map (\<lambda>k. s ! k) [0..<length s]"
      by (simp only: concat_singletons)
    then show ?thesis
      using True by (subst group_lines.simps) (simp add: map_nth)
  next
    case False
    then have ge: "g \<le> length s" by simp
    obtain g' where g': "g = Suc g'" using "1.prems" by (cases g) auto
    have split: "[0..<length s] = [0..<g'] @ [g'] @ map (\<lambda>k. k + g) [0..<length s - g]"
    proof -
      have "[0..<length s] = [0..<g] @ [g..<length s]"
        using ge by (metis le0 upt_add_eq_append le_add_diff_inverse add_0)
      moreover have "[g..<length s] = map (\<lambda>k. k + g) [0..<length s - g]"
        using ge by (simp add: map_add_upt)
      ultimately show ?thesis by (simp add: g')
    qed
    have first: "concat (map (?piece s) [0..<g']) = take g' s"
    proof -
      have "map (?piece s) [0..<g'] = map (\<lambda>k. [s ! k]) [0..<g']"
        using g' by (intro map_cong) auto
      then have "concat (map (?piece s) [0..<g']) = map (\<lambda>k. s ! k) [0..<g']"
        by (simp only: concat_singletons)
      also have "\<dots> = take g' s"
        using ge g' by (auto simp: list_eq_iff_nth_eq)
      finally show ?thesis .
    qed
    have mid: "?piece s g' = [s ! g', CHR 0x0A]"
      using g' by simp
    have shift: "Suc (k + g) mod g = Suc k mod g" for k
      by (metis add_Suc mod_add_self2)
    have rest: "map (?piece s) (map (\<lambda>k. k + g) [0..<length s - g])
        = map (?piece (drop g s)) [0..<length (drop g s)]"
      using ge by (simp add: add.commute shift)
    have ih: "concat (map (?piece (drop g s)) [0..<length (drop g s)]) = group_lines g (drop g s)"
      using "1.IH" "1.prems" False by simp
    have "take g' s @ [s ! g'] = take g s"
      using ge g' by (simp add: take_Suc_conv_app_nth)
    then have "concat (map (?piece s) [0..<length s])
        = take g s @ [CHR 0x0A] @ group_lines g (drop g s)"
      by (simp only: split map_append concat_append first list.map concat.simps mid rest ih)
         simp
    then show ?thesis
      using False "1.prems" by (subst group_lines.simps) simp
  qed
qed

lemma print_body:
  assumes "BitSet_wf b" and "k < unat (bit_len b)" and "0 < sint (newline :: c_int)"
  shows "and_then (BitSet_get debug_mode (Some b) (of_nat k)) (\<lambda>v.
            (let out1 = out @ printf_d v in
             if (scast newline :: size_t) = 0 then Inl Division_by_zero
             else if ((of_nat k :: size_t) + 1) mod scast newline = 0 then Inr (out1 @ [CHR 0x0A])
             else Inr out1))
    = Inr (out @ bit_chars b ! k #
        (if (k + 1) mod nat (sint newline) = 0 then [CHR 0x0A] else []))"
proof -
  let ?i = "of_nat k :: size_t"
  have ui: "unat ?i = k"
    using assms(2) by (intro le_unat_uoi [of k "bit_len b"]) simp
  have lt: "?i < bit_len b"
    using assms(2) ui by (simp add: word_less_nat_alt)
  have suc: "unat (?i + 1) = Suc k"
    using lt ui by unat_arith
  have g: "unat (scast newline :: size_t) = nat (sint newline)"
    using assms(3) by (rule scast_pos)
  then have nz: "(scast newline :: size_t) \<noteq> 0"
    using assms(3) by (metis unat_0 nat_0_iff not_less)
  have "unat ((?i + 1) mod scast newline) = Suc k mod nat (sint newline)"
    by (simp only: unat_mod suc g)
  then have m: "(?i + 1) mod scast newline = 0 \<longleftrightarrow> Suc k mod nat (sint newline) = 0"
    by (metis unat_eq_0)
  have c: "bit_chars b ! k = (if bit_at (storage b) k then CHR ''1'' else CHR ''0'')"
    using assms(2) by (simp add: bit_chars_def)
  have p: "printf_d (of_bool x) = [if x then CHR ''1'' else CHR ''0'']" for x
    by (cases x) (simp_all add: printf_d_01)
  show ?thesis
  proof (cases "Suc k mod nat (sint newline) = 0")
    case True
    with m have "(?i + 1) mod scast newline = 0" by simp
    with True nz show ?thesis
      by (simp add: get_wf [OF assms(1) lt] ui c p Let_def)
  next
    case False
    with m have "(?i + 1) mod scast newline \<noteq> 0" by simp
    with False nz show ?thesis
      by (simp add: get_wf [OF assms(1) lt] ui c p Let_def)
  qed
qed

text \<open>
  Claim C10. On a bit set that satisfies the invariant: with \<open>newline = 0\<close> and at least
  one bit, \<open>BitSet_print\<close> runs into the remainder by zero of \<open>(i + 1) % newline\<close>; with
  \<open>newline >= 1\<close> it writes one character \<open>0\<close> or \<open>1\<close> per index below \<open>bit_len\<close>, a
  line break after every \<open>newline\<close> characters, and a final line break.
\<close>

theorem print_layout:
  assumes "BitSet_wf b"
  shows "(bit_len b \<noteq> 0 \<longrightarrow> BitSet_print debug_mode (Some b) 0 = Inl Division_by_zero) \<and>
    (0 < sint newline \<longrightarrow>
       BitSet_print debug_mode (Some b) newline
         = Inr (group_lines (nat (sint newline)) (bit_chars b) @ [CHR 0x0A]))"
proof (intro conjI impI)
  assume "bit_len b \<noteq> 0"
  then have pos: "0 < bit_len b"
    by (simp add: word_gt_0)
  show "BitSet_print debug_mode (Some b) 0 = Inl Division_by_zero"
    by (simp add: BitSet_print_def BITSET_ASSERT_def for_loop_step [OF pos]
        get_wf [OF assms pos] Let_def)
next
  assume nl: "0 < sint newline"
  let ?g = "nat (sint newline)"
  let ?piece = "\<lambda>k. bit_chars b ! k # (if (k + 1) mod ?g = 0 then [CHR 0x0A] else [])"
  have g: "0 < ?g" using nl by simp
  have len: "length (bit_chars b) = unat (bit_len b)"
    by (simp add: bit_chars_def)
  have "for_loop 0 (bit_len b)
      (\<lambda>i out. and_then (BitSet_get debug_mode (Some b) i) (\<lambda>v.
         (let out1 = out @ printf_d v in
          if (scast newline :: size_t) = 0 then Inl Division_by_zero
          else if (i + 1) mod scast newline = 0 then Inr (out1 @ [CHR 0x0A])
          else Inr out1))) []
    = Inr ([] @ concat (map ?piece [0..<unat (bit_len b)]))"
    by (rule for_loop_append) (rule print_body [OF assms _ nl])
  also have "concat (map ?piece [0..<unat (bit_len b)]) = group_lines ?g (bit_chars b)"
    using group_lines_positions [OF g, of "bit_chars b"] by (simp only: len)
  finally show "BitSet_print debug_mode (Some b) newline
      = Inr (group_lines ?g (bit_chars b) @ [CHR 0x0A])"
    by (simp add: BitSet_print_def BITSET_ASSERT_def)
qed

theorem print_layout_witness:
  "BitSet_wf \<lparr>bits = Some [0x05], bit_len = 3\<rparr> \<and> bit_len \<lparr>bits = Some [0x05], bit_len = 3\<rparr> \<noteq> 0 \<and>
   0 < sint (2 :: c_int) \<and>
   BitSet_print True (Some \<lparr>bits = Some [0x05], bit_len = 3\<rparr>) 0 = Inl Division_by_zero \<and>
   BitSet_print True (Some \<lparr>bits = Some [0x05], bit_len = 3\<rparr>) 2
     = Inr [CHR ''1'', CHR ''0'', CHR 0x0A, CHR ''1'', CHR 0x0A]"
proof -
  have w: "BitSet_wf \<lparr>bits = Some [0x05], bit_len = 3\<rparr>"
    by (simp add: BitSet_wf_def)
  have s: "0 < sint (2 :: c_int)"
    by simp
  have n: "nat (sint (2 :: c_int)) = 2"
    by simp
  have c: "bit_chars \<lparr>bits = Some [0x05], bit_len = 3\<rparr> = ''101''"
    by code_simp
  have g: "group_lines 2 ''101'' = [CHR ''1'', CHR ''0'', CHR 0x0A, CHR ''1'']"
    by code_simp
  from print_layout [OF w, of True 2] w s show ?thesis
    by (simp only: n c g) simp
qed

end
